theory Spec2Isabelle
  imports Main "HOL-Library.Word" "HOL-Library.List_Lexorder"
begin

section \<open>Attribute name resolver of \<^verbatim>\<open>lib/pkcs11_attrdesc.c\<close>\<close>

subsection \<open>Data model\<close>

text \<open>
  Modelled from the spec: \<^verbatim>\<open>CK_ATTRIBUTE_TYPE\<close> is declared in the header \<^verbatim>\<open>pkcs11lib.h\<close>,
  whose text is not available; the specification describes the code as a 32-bit unsigned
  value, so it is a 32-bit word here.
\<close>

type_synonym CK_ATTRIBUTE_TYPE = "32 word"

text \<open>
  \<^verbatim>\<open>typedef struct s_attr_desc { CK_ATTRIBUTE_TYPE type; const char *desc; } AttributeDesc;\<close>

  A C string is represented by the bytes in front of its terminating NUL, so \<open>desc\<close> is a
  \<open>string\<close>; such a list holds no NUL byte itself.
\<close>

record AttributeDesc =
  type :: CK_ATTRIBUTE_TYPE
  desc :: string

text \<open>The lists that stand for a C string: those without a NUL byte.\<close>

definition c_string :: "string \<Rightarrow> bool" where
  "c_string s = (CHR 0x00 \<notin> set s)"

subsection \<open>The C library routines the resolver calls\<close>

text \<open>
  \<^verbatim>\<open>tolower\<close> of the "C" locale: the 26 upper-case ASCII letters are mapped to their
  lower-case counterparts, every other byte is left alone.
\<close>

definition tolower :: "char \<Rightarrow> char" where
  "tolower c =
     (let n = (of_char c :: nat)
      in if 65 \<le> n \<and> n \<le> 90 then char_of (n + 32) else c)"

text \<open>The byte a \<^verbatim>\<open>char *\<close> points at: at the end of the list this is the terminator.\<close>

definition peek :: "string \<Rightarrow> char" where
  "peek s = (case s of [] \<Rightarrow> CHR 0x00 | c # _ \<Rightarrow> c)"

text \<open>
  \<^verbatim>\<open>strcasecmp\<close>, following the C library loop
  \<^verbatim>\<open>while ((result = TOLOWER (*p1) - TOLOWER (*p2++)) == 0) if (*p1++ == '\0') break; return result;\<close>
  Bytes are compared as \<^verbatim>\<open>unsigned char\<close> values after lower-casing; the first difference is
  returned, and the scan stops at the terminator of the first string.
\<close>

fun strcasecmp :: "string \<Rightarrow> string \<Rightarrow> int" where
  "strcasecmp [] s2 =
     int (of_char (tolower (CHR 0x00))) - int (of_char (tolower (peek s2)))"
| "strcasecmp (c1 # s1) s2 =
     (let result = int (of_char (tolower c1)) - int (of_char (tolower (peek s2)))
      in if result = 0
         then (if c1 = CHR 0x00 then result else strcasecmp s1 (tl s2))
         else result)"

text \<open>
  Reading an array element outside the array is undefined behaviour in C; the model makes
  it a fault value, so that its absence is something to prove.
\<close>

datatype fault = OutOfBounds

text \<open>
  \<^verbatim>\<open>bsearch (key, base, nmemb, size, compar)\<close>, following the C library loop
  \<^verbatim>\<open>l = 0; u = nmemb; while (l < u) { idx = (l + u) / 2; p = base + idx * size;
   comparison = (*compar) (key, p); if (comparison < 0) u = idx; else if (comparison > 0)
   l = idx + 1; else return p; } return NULL;\<close>
  The array is a list, so the element size is implicit, and the pointer returned is the
  index of the element (\<open>None\<close> for \<^verbatim>\<open>NULL\<close>). The bounds are natural numbers: \<open>l + u\<close> stays
  below twice the number of elements of an array that exists in memory and cannot wrap around
  in a \<^verbatim>\<open>size_t\<close>.
\<close>

function bsearch_loop ::
  "'a \<Rightarrow> 'a list \<Rightarrow> ('a \<Rightarrow> 'a \<Rightarrow> int) \<Rightarrow> nat \<Rightarrow> nat \<Rightarrow> fault + nat option" where
  "bsearch_loop key base compar l u =
     (if l < u then
        (let idx = (l + u) div 2 in
         if idx < length base then
           (let comparison = compar key (base ! idx) in
            if comparison < 0 then bsearch_loop key base compar l idx
            else if comparison > 0 then bsearch_loop key base compar (idx + 1) u
            else Inr (Some idx))
         else Inl OutOfBounds)
      else Inr None)"
  by pat_completeness auto
termination
  by (relation "measure (\<lambda>(key, base, compar, l, u). u - l)") auto

definition bsearch :: "'a \<Rightarrow> 'a list \<Rightarrow> nat \<Rightarrow> ('a \<Rightarrow> 'a \<Rightarrow> int) \<Rightarrow> fault + nat option" where
  "bsearch key base nmemb compar = bsearch_loop key base compar 0 nmemb"

subsection \<open>The resolver\<close>

text \<open>
  \<^verbatim>\<open>static int compare_CKA_desc (const void *a, const void *b)
  { return strcasecmp(((AttributeDesc *)a)->desc, ((AttributeDesc *)b)->desc); }\<close>
\<close>

definition compare_CKA_desc :: "AttributeDesc \<Rightarrow> AttributeDesc \<Rightarrow> int" where
  "compare_CKA_desc a b = strcasecmp (desc a) (desc b)"

text \<open>
  \<^verbatim>\<open>get_attribute_type_from_name\<close>. The static table \<^verbatim>\<open>_a\<close> is filled from the generated
  header \<^verbatim>\<open>_attrinfo.h\<close>, whose text is not available, so the table is the first
  argument. \<^verbatim>\<open>array_size\<close> is \<^verbatim>\<open>sizeof(_a)/sizeof(AttributeDesc)\<close>, the number of
  entries. The argument \<^verbatim>\<open>name\<close> points at a string. Reading \<^verbatim>\<open>match->type\<close> reads the array
  at the index \<^verbatim>\<open>bsearch\<close> returned, so it is guarded like the reads inside the search.
\<close>

definition get_attribute_type_from_name ::
  "AttributeDesc list \<Rightarrow> string \<Rightarrow> fault + CK_ATTRIBUTE_TYPE" where
  "get_attribute_type_from_name a name =
     (let retval = 0xFFFFFFFF;
          array_size = length a;
          candidate = \<lparr>type = 0xFFFFFFFF, desc = name\<rparr>
      in case bsearch candidate a array_size compare_CKA_desc of
           Inl f \<Rightarrow> Inl f
         | Inr None \<Rightarrow> Inr retval
         | Inr (Some match) \<Rightarrow>
             (if match < length a then Inr (type (a ! match)) else Inl OutOfBounds))"

subsection \<open>The resolver with its memory made explicit\<close>

text \<open>
  The parameter \<^verbatim>\<open>name\<close> is a \<^verbatim>\<open>char *\<close> and \<^verbatim>\<open>_a\<close> is a non-\<^verbatim>\<open>const\<close> static array, so the
  language would allow the call to write to either. To speak about that, the same code is
  written once more as a state transformer over the two objects: the buffer \<^verbatim>\<open>name\<close> points
  to and the array \<^verbatim>\<open>_a\<close>. Every function takes the memory and returns it next to its result.
\<close>

record memory =
  name_buf :: string
  a_tbl :: "AttributeDesc list"

text \<open>
  \<^verbatim>\<open>compare_CKA_desc\<close> as \<^verbatim>\<open>bsearch\<close> calls it: \<^verbatim>\<open>a\<close> is \<^verbatim>\<open>&candidate\<close>, whose \<^verbatim>\<open>desc\<close> is the
  pointer \<^verbatim>\<open>name\<close>, and \<^verbatim>\<open>b\<close> is \<^verbatim>\<open>_a + idx\<close>. Both strings are read; neither the comparator
  nor \<^verbatim>\<open>strcasecmp\<close> contains a store.
\<close>

definition compare_CKA_desc_mem :: "nat \<Rightarrow> memory \<Rightarrow> int \<times> memory" where
  "compare_CKA_desc_mem idx m = (strcasecmp (name_buf m) (desc (a_tbl m ! idx)), m)"

function bsearch_loop_mem :: "nat \<Rightarrow> nat \<Rightarrow> memory \<Rightarrow> (fault + nat option) \<times> memory" where
  "bsearch_loop_mem l u m =
     (if l < u then
        (let idx = (l + u) div 2 in
         if idx < length (a_tbl m) then
           (case compare_CKA_desc_mem idx m of (comparison, m') \<Rightarrow>
              if comparison < 0 then bsearch_loop_mem l idx m'
              else if comparison > 0 then bsearch_loop_mem (idx + 1) u m'
              else (Inr (Some idx), m'))
         else (Inl OutOfBounds, m))
      else (Inr None, m))"
  by pat_completeness auto
termination
  by (relation "measure (\<lambda>(l, u, m). u - l)") auto

definition bsearch_mem :: "nat \<Rightarrow> memory \<Rightarrow> (fault + nat option) \<times> memory" where
  "bsearch_mem nmemb m = bsearch_loop_mem 0 nmemb m"

text \<open>
  The local \<^verbatim>\<open>candidate\<close> is \<^verbatim>\<open>{ 0xFFFFFFFF, name }\<close>: its \<^verbatim>\<open>desc\<close> is the caller's pointer, so the
  search reads the key from \<open>name_buf\<close>.
\<close>

definition get_attribute_type_from_name_mem ::
  "memory \<Rightarrow> (fault + CK_ATTRIBUTE_TYPE) \<times> memory" where
  "get_attribute_type_from_name_mem m =
     (let retval = 0xFFFFFFFF;
          array_size = length (a_tbl m)
      in case bsearch_mem array_size m of
           (Inl f, m') \<Rightarrow> (Inl f, m')
         | (Inr None, m') \<Rightarrow> (Inr retval, m')
         | (Inr (Some match), m') \<Rightarrow>
             (if match < length (a_tbl m') then (Inr (type (a_tbl m' ! match)), m')
              else (Inl OutOfBounds, m')))"

text \<open>The recursive equations of both search functions are unfolded one step at a time.\<close>

declare bsearch_loop.simps [simp del] bsearch_loop_mem.simps [simp del]

subsection \<open>Notions used to state the properties\<close>

text \<open>
  The table invariant: each entry compares strictly below its successor under the comparator
  the search uses.
\<close>

definition table_sorted :: "AttributeDesc list \<Rightarrow> bool" where
  "table_sorted a = successively (\<lambda>e1 e2. compare_CKA_desc e1 e2 < 0) a"

text \<open>Two strings are equal up to ASCII case: same length, and bytewise equal once lower-cased.\<close>

definition caseless_eq :: "string \<Rightarrow> string \<Rightarrow> bool" where
  "caseless_eq s t = (map tolower s = map tolower t)"

text \<open>
  The reference lookup, written after the specification's words rather than after the code:
  scan the table from the front, return the code of the first entry whose name equals the
  input up to case, and \<^verbatim>\<open>0xFFFFFFFF\<close> when there is none.
\<close>

fun naive_lookup :: "AttributeDesc list \<Rightarrow> string \<Rightarrow> CK_ATTRIBUTE_TYPE" where
  "naive_lookup [] s = 0xFFFFFFFF"
| "naive_lookup (e # es) s = (if caseless_eq (desc e) s then type e else naive_lookup es s)"

text \<open>
  The sort key \<^verbatim>\<open>strcasecmp\<close> compares by: the lower-cased byte values in front of the first
  NUL. It only serves the proofs.
\<close>

definition fold_key :: "string \<Rightarrow> nat list" where
  "fold_key s = map (\<lambda>c. of_char (tolower c)) (takeWhile (\<lambda>c. c \<noteq> CHR 0x00) s)"

text \<open>A small table in the required order, with five attributes of the standard, for concrete runs.\<close>

definition example_a :: "AttributeDesc list" where
  "example_a =
     [\<lparr>type = 0x0, desc = ''CKA_CLASS''\<rparr>,
      \<lparr>type = 0x3, desc = ''CKA_LABEL''\<rparr>,
      \<lparr>type = 0x2, desc = ''CKA_PRIVATE''\<rparr>,
      \<lparr>type = 0x1, desc = ''CKA_TOKEN''\<rparr>,
      \<lparr>type = 0x11, desc = ''CKA_VALUE''\<rparr>]"

section \<open>Properties of the C library routines\<close>

subsection \<open>\<^verbatim>\<open>tolower\<close> and \<^verbatim>\<open>strcasecmp\<close>\<close>

lemma of_char_eq_0: "(of_char c :: nat) = 0 \<longleftrightarrow> c = CHR 0x00"
  using of_char_eq_iff [of c "CHR 0x00", where ?'a = nat] by simp

lemma of_char_tolower:
  "(of_char (tolower c) :: nat) =
     (if 65 \<le> (of_char c :: nat) \<and> (of_char c :: nat) \<le> 90 then of_char c + 32 else of_char c)"
  by (simp add: tolower_def Let_def)

lemma tolower_NUL: "tolower (CHR 0x00) = CHR 0x00"
  by (simp add: tolower_def)

lemma tolower_eq_NUL: "tolower c = CHR 0x00 \<longleftrightarrow> c = CHR 0x00"
proof -
  have "(of_char (tolower c) :: nat) = 0 \<longleftrightarrow> (of_char c :: nat) = 0"
    by (simp add: of_char_tolower)
  then show ?thesis
    by (simp only: of_char_eq_0)
qed

lemma of_char_tolower_eq_0: "(of_char (tolower c) :: nat) = 0 \<longleftrightarrow> c = CHR 0x00"
  by (simp only: of_char_eq_0 tolower_eq_NUL)

lemma of_char_tolower_pos: "c \<noteq> CHR 0x00 \<Longrightarrow> 0 < (of_char (tolower c) :: nat)"
  using of_char_eq_0 [of "tolower c"] by (simp add: tolower_eq_NUL)

lemma NUL_eq_tolower: "CHR 0x00 = tolower c \<longleftrightarrow> c = CHR 0x00"
  using tolower_eq_NUL [of c] by auto

lemma fold_key_Nil: "fold_key [] = []"
  by (simp add: fold_key_def)

lemma fold_key_Cons:
  "fold_key (c # s) = (if c = CHR 0x00 then [] else of_char (tolower c) # fold_key s)"
  by (simp add: fold_key_def)

lemmas key_simps = fold_key_Nil fold_key_Cons tolower_NUL tolower_eq_NUL NUL_eq_tolower
  of_char_tolower_eq_0 of_char_tolower_pos

lemma strcasecmp_key:
  "(strcasecmp s t < 0 \<longleftrightarrow> fold_key s < fold_key t) \<and>
   (strcasecmp s t = 0 \<longleftrightarrow> fold_key s = fold_key t)"
proof (induction s arbitrary: t)
  case Nil
  show ?case
    by (cases t) (auto simp: peek_def key_simps)
next
  case (Cons c s)
  show ?case
  proof (cases t)
    case Nil
    then show ?thesis
      by (auto simp: peek_def Let_def key_simps)
  next
    case (Cons d t')
    with Cons.IH[of t'] show ?thesis
      by (auto simp: peek_def Let_def key_simps)
  qed
qed

lemma strcasecmp_neg: "strcasecmp s t < 0 \<longleftrightarrow> fold_key s < fold_key t"
  using strcasecmp_key by blast

lemma strcasecmp_zero: "strcasecmp s t = 0 \<longleftrightarrow> fold_key s = fold_key t"
  using strcasecmp_key by blast

lemma strcasecmp_pos: "0 < strcasecmp s t \<longleftrightarrow> fold_key t < fold_key s"
  using strcasecmp_neg [of s t] strcasecmp_zero [of s t] by auto

lemma fold_key_map_tolower:
  "fold_key s = map of_char (takeWhile (\<lambda>c. c \<noteq> CHR 0x00) (map tolower s))"
  by (simp add: fold_key_def takeWhile_map comp_def tolower_eq_NUL)

lemma caseless_eq_fold_key: "caseless_eq s t \<Longrightarrow> fold_key s = fold_key t"
  by (simp add: caseless_eq_def fold_key_map_tolower)

lemma fold_key_c_string: "c_string s \<Longrightarrow> fold_key s = map of_char (map tolower s)"
proof -
  assume "c_string s"
  then have "takeWhile (\<lambda>c. c \<noteq> CHR 0x00) s = s"
    by (auto simp: c_string_def takeWhile_eq_all_conv)
  then show ?thesis
    unfolding fold_key_def by (simp only: map_map comp_def)
qed

lemma fold_key_caseless_eq:
  assumes "c_string s" "c_string t" "fold_key s = fold_key t"
  shows "caseless_eq s t"
proof -
  have "map (of_char :: char \<Rightarrow> nat) (map tolower s) = map of_char (map tolower t)"
    using assms by (simp add: fold_key_c_string)
  then have "map tolower s = map tolower t"
    using inj_of_char [where ?'a = nat] by (simp only: inj_map_eq_map)
  then show ?thesis
    by (simp add: caseless_eq_def)
qed

subsection \<open>\<^verbatim>\<open>bsearch\<close>\<close>

text \<open>
  On any array, sorted or not, the loop stays inside the array and returns; an index it
  returns is in range and the comparator is zero there.
\<close>

lemma bsearch_loop_returns:
  "u \<le> length base \<Longrightarrow>
   \<exists>r. bsearch_loop key base compar l u = Inr r \<and>
       (\<forall>i. r = Some i \<longrightarrow> l \<le> i \<and> i < u \<and> compar key (base ! i) = 0)"
proof (induction key base compar l u rule: bsearch_loop.induct)
  case (1 key base compar l u)
  show ?case
  proof (cases "l < u")
    case False
    then show ?thesis by (subst bsearch_loop.simps) simp
  next
    case True
    define idx where "idx = (l + u) div 2"
    have idx: "l \<le> idx" "idx < u" "idx < length base"
      using True "1.prems" by (auto simp: idx_def)
    consider (lt) "compar key (base ! idx) < 0"
      | (gt) "\<not> compar key (base ! idx) < 0" "compar key (base ! idx) > 0"
      | (eq) "compar key (base ! idx) = 0"
      by linarith
    then show ?thesis
    proof cases
      case lt
      have "\<exists>r. bsearch_loop key base compar l idx = Inr r \<and>
          (\<forall>i. r = Some i \<longrightarrow> l \<le> i \<and> i < idx \<and> compar key (base ! i) = 0)"
        using "1.IH"(1) [OF True idx_def idx(3) refl lt] idx by simp
      moreover have "bsearch_loop key base compar l u = bsearch_loop key base compar l idx"
        using True idx lt by (subst bsearch_loop.simps) (simp add: idx_def Let_def)
      ultimately show ?thesis using idx by fastforce
    next
      case gt
      have "\<exists>r. bsearch_loop key base compar (idx + 1) u = Inr r \<and>
          (\<forall>i. r = Some i \<longrightarrow> idx + 1 \<le> i \<and> i < u \<and> compar key (base ! i) = 0)"
        using "1.IH"(2) [OF True idx_def idx(3) refl gt] "1.prems" by simp
      moreover have "bsearch_loop key base compar l u = bsearch_loop key base compar (idx + 1) u"
        using True idx gt by (subst bsearch_loop.simps) (simp add: idx_def Let_def)
      ultimately show ?thesis using idx by fastforce
    next
      case eq
      have "bsearch_loop key base compar l u = Inr (Some idx)"
        using True idx eq by (subst bsearch_loop.simps) (simp add: idx_def Let_def)
      then show ?thesis using idx eq by simp
    qed
  qed
qed

text \<open>
  On an array strictly ascending in a key the comparator decides by, a \<^verbatim>\<open>NULL\<close> result means
  that no element of the searched range has the key of the candidate.
\<close>

lemma bsearch_loop_None:
  fixes f :: "'a \<Rightarrow> 'k::linorder"
  assumes cmp_neg: "\<And>x y. compar x y < 0 \<longleftrightarrow> f x < f y"
    and cmp_zero: "\<And>x y. compar x y = 0 \<longleftrightarrow> f x = f y"
    and srt: "sorted_wrt (\<lambda>x y. f x < f y) base"
  shows "u \<le> length base \<Longrightarrow> bsearch_loop key base compar l u = Inr None \<Longrightarrow>
         l \<le> i \<Longrightarrow> i < u \<Longrightarrow> f (base ! i) \<noteq> f key"
  using assms
proof (induction key base compar l u rule: bsearch_loop.induct)
  case (1 key base compar l u)
  note cmp_neg = "1.prems"(5) and cmp_zero = "1.prems"(6) and srt = "1.prems"(7)
  have mono: "f (base ! m) < f (base ! n)" if "m < n" "n < length base" for m n
    using srt that by (simp add: sorted_wrt_iff_nth_less)
  define idx where "idx = (l + u) div 2"
  have lu: "l < u" using "1.prems" by simp
  have idx: "l \<le> idx" "idx < u" "idx < length base"
    using lu "1.prems"(1) by (auto simp: idx_def)
  consider (lt) "compar key (base ! idx) < 0"
    | (gt) "\<not> compar key (base ! idx) < 0" "compar key (base ! idx) > 0"
    | (eq) "compar key (base ! idx) = 0"
    by linarith
  then show ?case
  proof cases
    case lt
    have unf: "bsearch_loop key base compar l idx = Inr None"
      using lu idx lt "1.prems"(2) by (subst (asm) bsearch_loop.simps) (simp add: idx_def Let_def)
    show ?thesis
    proof (cases "i < idx")
      case True
      have "idx \<le> length base" using idx by simp
      from "1.IH"(1) [OF lu idx_def idx(3) refl lt this unf "1.prems"(3) True cmp_neg cmp_zero srt]
      show ?thesis .
    next
      case False
      have "f key < f (base ! idx)" using lt cmp_neg by simp
      moreover have "f (base ! idx) \<le> f (base ! i)"
        using False mono [of idx i] "1.prems"(1,4) by (cases "i = idx") auto
      ultimately show ?thesis by auto
    qed
  next
    case gt
    have unf: "bsearch_loop key base compar (idx + 1) u = Inr None"
      using lu idx gt "1.prems"(2) by (subst (asm) bsearch_loop.simps) (simp add: idx_def Let_def)
    show ?thesis
    proof (cases "idx < i")
      case True
      then have "idx + 1 \<le> i" by simp
      from "1.IH"(2) [OF lu idx_def idx(3) refl gt "1.prems"(1) unf this "1.prems"(4) cmp_neg cmp_zero srt]
      show ?thesis .
    next
      case False
      have "\<not> f key < f (base ! idx)"
        using gt(1) cmp_neg by simp
      moreover have "f key \<noteq> f (base ! idx)"
        using gt(2) cmp_zero [of key "base ! idx"] by auto
      ultimately have "\<not> f key < f (base ! idx)" "f key \<noteq> f (base ! idx)"
        by blast+
      then have "f (base ! idx) < f key" by auto
      moreover have "f (base ! i) \<le> f (base ! idx)"
        using False mono [of i idx] idx by (cases "i = idx") auto
      ultimately show ?thesis by auto
    qed
  next
    case eq
    have "bsearch_loop key base compar l u = Inr (Some idx)"
      using lu idx eq by (subst bsearch_loop.simps) (simp add: idx_def Let_def)
    then show ?thesis using "1.prems"(2) by simp
  qed
qed

section \<open>Properties of the resolver\<close>

lemma compare_CKA_desc_neg:
  "compare_CKA_desc x y < 0 \<longleftrightarrow> fold_key (desc x) < fold_key (desc y)"
  by (simp add: compare_CKA_desc_def strcasecmp_neg)

lemma compare_CKA_desc_zero:
  "compare_CKA_desc x y = 0 \<longleftrightarrow> fold_key (desc x) = fold_key (desc y)"
  by (simp add: compare_CKA_desc_def strcasecmp_zero)

lemma table_sorted_keys:
  "table_sorted a \<longleftrightarrow> sorted_wrt (\<lambda>x y. fold_key (desc x) < fold_key (desc y)) a"
proof -
  have "transp (\<lambda>x y. fold_key (desc x) < fold_key (desc y))"
    by (rule transpI) (rule less_trans)
  from successively_conv_sorted_wrt [OF this, of a] show ?thesis
    by (simp add: table_sorted_def compare_CKA_desc_neg)
qed

lemma bsearch_returns:
  "\<exists>r. bsearch key a (length a) compare_CKA_desc = Inr r \<and>
       (\<forall>i. r = Some i \<longrightarrow> i < length a \<and> fold_key (desc key) = fold_key (desc (a ! i)))"
  using bsearch_loop_returns [of "length a" a key compare_CKA_desc 0]
  by (auto simp: bsearch_def compare_CKA_desc_zero)

lemma bsearch_None_no_match:
  assumes "table_sorted a" "bsearch key a (length a) compare_CKA_desc = Inr None" "e \<in> set a"
  shows "fold_key (desc e) \<noteq> fold_key (desc key)"
proof -
  obtain i where i: "i < length a" "a ! i = e"
    using assms(3) by (auto simp: in_set_conv_nth)
  have "fold_key (desc (a ! i)) \<noteq> fold_key (desc key)"
    using assms(1,2) i(1)
    by (intro bsearch_loop_None [where compar = compare_CKA_desc and l = 0 and u = "length a"
          and f = "\<lambda>x. fold_key (desc x)"])
       (simp_all add: compare_CKA_desc_neg compare_CKA_desc_zero table_sorted_keys bsearch_def)
  then show ?thesis using i by simp
qed

lemma resolve_outcome:
  "(get_attribute_type_from_name a name = Inr 0xFFFFFFFF \<and>
      bsearch \<lparr>type = 0xFFFFFFFF, desc = name\<rparr> a (length a) compare_CKA_desc = Inr None) \<or>
   (\<exists>i < length a. get_attribute_type_from_name a name = Inr (type (a ! i)) \<and>
      fold_key name = fold_key (desc (a ! i)))"
proof -
  obtain r where r: "bsearch \<lparr>type = 0xFFFFFFFF, desc = name\<rparr> a (length a) compare_CKA_desc = Inr r"
    "\<And>i. r = Some i \<Longrightarrow> i < length a \<and> fold_key name = fold_key (desc (a ! i))"
    using bsearch_returns [of "\<lparr>type = 0xFFFFFFFF, desc = name\<rparr>" a] by auto
  show ?thesis
  proof (cases r)
    case None
    then show ?thesis using r(1) by (simp add: get_attribute_type_from_name_def)
  next
    case (Some i)
    then show ?thesis using r(1) r(2) [OF Some]
      by (auto simp: get_attribute_type_from_name_def)
  qed
qed

lemma resolve_hit:
  assumes "table_sorted a" "e \<in> set a" "fold_key name = fold_key (desc e)"
  shows "get_attribute_type_from_name a name = Inr (type e)"
proof -
  obtain j where j: "j < length a" "a ! j = e"
    using assms(2) by (auto simp: in_set_conv_nth)
  have mono: "fold_key (desc (a ! m)) < fold_key (desc (a ! n))" if "m < n" "n < length a" for m n
    using assms(1) that by (simp add: table_sorted_keys sorted_wrt_iff_nth_less)
  from resolve_outcome [of a name] show ?thesis
  proof (elim disjE conjE exE)
    assume "bsearch \<lparr>type = 0xFFFFFFFF, desc = name\<rparr> a (length a) compare_CKA_desc = Inr None"
    from bsearch_None_no_match [OF assms(1) this assms(2)] assms(3)
    show ?thesis by simp
  next
    fix i
    assume i: "i < length a" "get_attribute_type_from_name a name = Inr (type (a ! i))"
      "fold_key name = fold_key (desc (a ! i))"
    have "fold_key (desc (a ! i)) = fold_key (desc (a ! j))"
      using i(3) assms(3) j(2) by simp
    then have "i = j"
      using mono [of i j] mono [of j i] i(1) j(1) by (cases i j rule: linorder_cases) auto
    then show ?thesis using i(2) j(2) by simp
  qed
qed

lemma resolve_miss:
  assumes "\<forall>e \<in> set a. fold_key (desc e) \<noteq> fold_key name"
  shows "get_attribute_type_from_name a name = Inr 0xFFFFFFFF"
  using resolve_outcome [of a name] assms nth_mem [of _ a] by metis

lemma resolve_range:
  "\<exists>v. get_attribute_type_from_name a name = Inr v \<and> (v = 0xFFFFFFFF \<or> v \<in> type ` set a)"
  using resolve_outcome [of a name] nth_mem [of _ a] by blast

lemma naive_lookup_miss:
  "\<forall>e \<in> set a. \<not> caseless_eq (desc e) s \<Longrightarrow> naive_lookup a s = 0xFFFFFFFF"
  by (induction a) auto

lemma naive_lookup_hit:
  "\<exists>e \<in> set a. caseless_eq (desc e) s \<Longrightarrow>
   \<exists>e \<in> set a. caseless_eq (desc e) s \<and> naive_lookup a s = type e"
  by (induction a) auto

lemma caseless_eq_bytes:
  "caseless_eq s t \<longleftrightarrow>
   map (\<lambda>c. of_char (tolower c) :: nat) s = map (\<lambda>c. of_char (tolower c)) t"
proof -
  have "map (\<lambda>c. of_char (tolower c) :: nat) s = map (\<lambda>c. of_char (tolower c)) t \<longleftrightarrow>
        map (of_char :: char \<Rightarrow> nat) (map tolower s) = map of_char (map tolower t)"
    by (simp add: comp_def)
  also have "\<dots> \<longleftrightarrow> map tolower s = map tolower t"
    using inj_of_char [where ?'a = nat] by (simp only: inj_map_eq_map)
  finally show ?thesis
    by (simp add: caseless_eq_def)
qed

lemmas caseless_eval = caseless_eq_bytes of_char_tolower

text \<open>
  The example table is in order, and the resolver run on it step by step gives the results
  the specification's scenarios ask for: a name in either case, an unknown name, a second
  name with a different code, a name with a leading blank, the empty string, and the empty
  table.
\<close>

lemma example_a_sorted: "table_sorted example_a"
  by (simp add: table_sorted_def example_a_def compare_CKA_desc_def tolower_def peek_def)

lemma example_runs:
  "get_attribute_type_from_name example_a ''CKA_LABEL'' = Inr 0x3"
  "get_attribute_type_from_name example_a ''cka_label'' = Inr 0x3"
  "get_attribute_type_from_name example_a ''CKA_NOT_A_REAL_ATTRIBUTE'' = Inr 0xFFFFFFFF"
  "get_attribute_type_from_name example_a ''CKA_CLASS'' = Inr 0x0"
  "get_attribute_type_from_name example_a '' CKA_LABEL'' = Inr 0xFFFFFFFF"
  "get_attribute_type_from_name example_a [] = Inr 0xFFFFFFFF"
  "get_attribute_type_from_name [] ''CKA_LABEL'' = Inr 0xFFFFFFFF"
  by (simp_all add: get_attribute_type_from_name_def bsearch_def bsearch_loop.simps
      example_a_def compare_CKA_desc_def tolower_def peek_def Let_def)

lemma example_a_c_strings: "\<forall>e \<in> set example_a. c_string (desc e)"
  by (simp add: example_a_def c_string_def)

lemma example_a_not_label_sp:
  "\<forall>e \<in> set example_a. c_string (desc e) \<and> \<not> caseless_eq ''CKA_LABEL '' (desc e)"
  by (simp add: example_a_def c_string_def caseless_eval)

lemma example_a_no_empty_name:
  "\<forall>e \<in> set example_a. c_string (desc e) \<and> \<not> caseless_eq [] (desc e)"
  by (simp add: example_a_def c_string_def caseless_eval)

subsection \<open>The memory-level resolver computes the same value and returns the memory as it was\<close>

lemma bsearch_loop_mem_eq:
  "bsearch_loop_mem l u m =
     (bsearch_loop \<lparr>type = 0xFFFFFFFF, desc = name_buf m\<rparr> (a_tbl m) compare_CKA_desc l u, m)"
proof (induction l u m rule: bsearch_loop_mem.induct)
  case (1 l u m)
  show ?case
  proof (cases "l < u \<and> (l + u) div 2 < length (a_tbl m)")
    case False
    then show ?thesis
      by (subst bsearch_loop_mem.simps, subst bsearch_loop.simps) (auto simp: Let_def)
  next
    case True
    define idx where "idx = (l + u) div 2"
    have c: "compare_CKA_desc_mem idx m =
        (compare_CKA_desc \<lparr>type = 0xFFFFFFFF, desc = name_buf m\<rparr> (a_tbl m ! idx), m)"
      by (simp add: compare_CKA_desc_mem_def compare_CKA_desc_def)
    show ?thesis
      using True "1.IH"(1) [OF _ idx_def _ c [symmetric]] "1.IH"(2) [OF _ idx_def _ c [symmetric]]
      by (subst bsearch_loop_mem.simps, subst bsearch_loop.simps)
         (simp add: Let_def c idx_def [symmetric])
  qed
qed

lemma get_attribute_type_from_name_mem_eq:
  "get_attribute_type_from_name_mem m =
     (get_attribute_type_from_name (a_tbl m) (name_buf m), m)"
proof (cases "bsearch \<lparr>type = 0xFFFFFFFF, desc = name_buf m\<rparr> (a_tbl m) (length (a_tbl m))
    compare_CKA_desc")
  case (Inl f)
  then show ?thesis
    by (simp add: get_attribute_type_from_name_mem_def get_attribute_type_from_name_def
        bsearch_mem_def bsearch_loop_mem_eq bsearch_def)
next
  case (Inr r)
  then show ?thesis
    by (cases r)
      (simp_all add: get_attribute_type_from_name_mem_def get_attribute_type_from_name_def
        bsearch_mem_def bsearch_loop_mem_eq bsearch_def)
qed

section \<open>The specification's statements\<close>

text \<open>
  C1. Let the table be strictly ascending under the comparator. For every entry of the table
  and every string equal to the entry's name up to ASCII case (upper, lower or mixed), the
  resolver returns the entry's code.
\<close>

theorem resolve_finds_every_entry:
  assumes "table_sorted a" and "e \<in> set a" and "caseless_eq s (desc e)"
  shows "get_attribute_type_from_name a s = Inr (type e)"
  using assms(1,2) caseless_eq_fold_key [OF assms(3)] by (rule resolve_hit)

theorem resolve_finds_every_entry_witness:
  "table_sorted example_a \<and> \<lparr>type = 0x3, desc = ''CKA_LABEL''\<rparr> \<in> set example_a \<and>
   caseless_eq ''cKa_LaBeL'' (desc \<lparr>type = 0x3, desc = ''CKA_LABEL''\<rparr>) \<and>
   get_attribute_type_from_name example_a ''cKa_LaBeL'' = Inr 0x3"
proof -
  have m: "\<lparr>type = 0x3, desc = ''CKA_LABEL''\<rparr> \<in> set example_a"
    by (simp add: example_a_def)
  have c: "caseless_eq ''cKa_LaBeL'' (desc \<lparr>type = 0x3, desc = ''CKA_LABEL''\<rparr>)"
    by (simp add: caseless_eval)
  from resolve_finds_every_entry [OF example_a_sorted m c] example_a_sorted m c
  show ?thesis by simp
qed

text \<open>
  C2. For a string that equals no name of the table up to ASCII case, the resolver returns
  \<^verbatim>\<open>0xFFFFFFFF\<close>; nothing but case is normalised, so a name with a trailing blank is such a
  string. The strings are C strings (no NUL inside). The order of the table plays no part in
  this direction, so it is not assumed.
\<close>

theorem resolve_unknown_name:
  assumes "c_string s" and "\<forall>e \<in> set a. c_string (desc e) \<and> \<not> caseless_eq s (desc e)"
  shows "get_attribute_type_from_name a s = Inr 0xFFFFFFFF"
proof (rule resolve_miss, rule ballI)
  fix e assume "e \<in> set a"
  then have "c_string (desc e)" "\<not> caseless_eq s (desc e)"
    using assms(2) by auto
  then show "fold_key (desc e) \<noteq> fold_key s"
    using fold_key_caseless_eq [OF assms(1), of "desc e"] by auto
qed

theorem resolve_unknown_name_witness:
  "c_string ''CKA_LABEL '' \<and>
   list_all (\<lambda>e. c_string (desc e) \<and> \<not> caseless_eq ''CKA_LABEL '' (desc e)) example_a \<and>
   get_attribute_type_from_name example_a ''CKA_LABEL '' = Inr 0xFFFFFFFF"
proof -
  have c: "c_string ''CKA_LABEL ''"
    by (simp add: c_string_def)
  from resolve_unknown_name [OF c example_a_not_label_sp] c example_a_not_label_sp
  show ?thesis by (simp add: list_all_iff)
qed

text \<open>
  C3. On a table strictly ascending under the comparator, the binary search of the resolver
  returns what the linear reference lookup returns: the code of the first entry whose name
  equals the input up to case, or \<^verbatim>\<open>0xFFFFFFFF\<close>. The strings are C strings (no NUL inside).
\<close>

theorem resolve_refines_naive_lookup:
  assumes "table_sorted a" and "c_string s" and "\<forall>e \<in> set a. c_string (desc e)"
  shows "get_attribute_type_from_name a s = Inr (naive_lookup a s)"
proof (cases "\<exists>e \<in> set a. caseless_eq (desc e) s")
  case True
  from naive_lookup_hit [OF True] obtain e
    where e: "e \<in> set a" "caseless_eq (desc e) s" "naive_lookup a s = type e"
    by blast
  have "fold_key s = fold_key (desc e)"
    using caseless_eq_fold_key [OF e(2)] by simp
  from resolve_hit [OF assms(1) e(1) this] e(3) show ?thesis by simp
next
  case False
  then have n: "naive_lookup a s = 0xFFFFFFFF"
    by (intro naive_lookup_miss) blast
  have "\<forall>e \<in> set a. fold_key (desc e) \<noteq> fold_key s"
  proof
    fix e assume e: "e \<in> set a"
    then have "c_string (desc e)" "\<not> caseless_eq (desc e) s"
      using assms(3) False by auto
    then show "fold_key (desc e) \<noteq> fold_key s"
      using fold_key_caseless_eq [OF _ assms(2), of "desc e"] by auto
  qed
  from resolve_miss [OF this] n show ?thesis by simp
qed

theorem resolve_refines_naive_lookup_witness:
  "table_sorted example_a \<and> c_string ''cka_token'' \<and> list_all (\<lambda>e. c_string (desc e)) example_a \<and>
   get_attribute_type_from_name example_a ''cka_token'' = Inr (naive_lookup example_a ''cka_token'') \<and>
   naive_lookup example_a ''cka_token'' = 0x1"
proof -
  have c: "c_string ''cka_token''"
    by (simp add: c_string_def)
  have n: "naive_lookup example_a ''cka_token'' = 0x1"
    by (simp add: example_a_def caseless_eval)
  from resolve_refines_naive_lookup [OF example_a_sorted c example_a_c_strings]
    example_a_sorted c example_a_c_strings n
  show ?thesis by (simp add: list_all_iff)
qed

text \<open>
  C5. The resolver maps the empty string to \<^verbatim>\<open>0xFFFFFFFF\<close>, the empty string being equal up to
  case to no name of the table. The table is an argument here, so that no name of it is
  empty is the hypothesis; the order of the table plays no part.
\<close>

theorem resolve_empty_string:
  assumes "\<forall>e \<in> set a. c_string (desc e) \<and> \<not> caseless_eq [] (desc e)"
  shows "get_attribute_type_from_name a [] = Inr 0xFFFFFFFF"
proof (rule resolve_miss, rule ballI)
  fix e assume "e \<in> set a"
  then have "c_string (desc e)" "\<not> caseless_eq [] (desc e)"
    using assms by auto
  moreover have "c_string []" by (simp add: c_string_def)
  ultimately show "fold_key (desc e) \<noteq> fold_key []"
    using fold_key_caseless_eq [of "[]" "desc e"] by auto
qed

theorem resolve_empty_string_witness:
  "list_all (\<lambda>e. c_string (desc e) \<and> \<not> caseless_eq [] (desc e)) example_a \<and>
   get_attribute_type_from_name example_a [] = Inr 0xFFFFFFFF"
  using resolve_empty_string [OF example_a_no_empty_name] example_a_no_empty_name
  by (simp add: list_all_iff)

text \<open>
  C7. The resolver is total. The loop of \<^verbatim>\<open>bsearch\<close> terminates (its definition carries the
  termination proof), and for every table and every input string, the empty one and any
  other, the search never reads outside the array and the resolver returns a value, which
  is \<^verbatim>\<open>0xFFFFFFFF\<close> or the code of an entry of the table.
\<close>

theorem resolve_total:
  "(\<exists>r. bsearch \<lparr>type = 0xFFFFFFFF, desc = name\<rparr> a (length a) compare_CKA_desc = Inr r) \<and>
   (\<exists>v. get_attribute_type_from_name a name = Inr v \<and> (v = 0xFFFFFFFF \<or> v \<in> type ` set a))"
  using bsearch_returns [of "\<lparr>type = 0xFFFFFFFF, desc = name\<rparr>" a] resolve_range [of a name]
  by blast

text \<open>
  C8. The resolver is deterministic: a second call on the same string, made in the memory
  the first call left behind, returns what the first call returned, and that value is a
  function of the table and the string alone.
\<close>

theorem resolve_repeatable:
  "fst (get_attribute_type_from_name_mem (snd (get_attribute_type_from_name_mem m))) =
     fst (get_attribute_type_from_name_mem m) \<and>
   fst (get_attribute_type_from_name_mem m) =
     get_attribute_type_from_name (a_tbl m) (name_buf m)"
  by (simp add: get_attribute_type_from_name_mem_eq)

text \<open>
  C9. Whatever the input string, the value the resolver returns is \<^verbatim>\<open>0xFFFFFFFF\<close> or the
  \<^verbatim>\<open>type\<close> field of an entry of the table, and nothing else.
\<close>

theorem resolve_result_range:
  "get_attribute_type_from_name a name \<in> Inr ` insert 0xFFFFFFFF (type ` set a)"
  using resolve_range [of a name] by auto

text \<open>
  C10. The resolver does not modify its input: after the call the buffer \<^verbatim>\<open>name\<close> points to
  holds the bytes it held before, and the table is unchanged as well.
\<close>

theorem resolve_frame:
  "name_buf (snd (get_attribute_type_from_name_mem m)) = name_buf m \<and>
   a_tbl (snd (get_attribute_type_from_name_mem m)) = a_tbl m"
  by (simp add: get_attribute_type_from_name_mem_eq)

end
